theory Spec2Isabelle
  imports Main
begin

section \<open>The C library functions the validator calls\<close>

text \<open>
  The validator (\<^verbatim>\<open>isValidExpression\<close> in \<^verbatim>\<open>validator.c\<close>) receives a C string. The
  model takes the bytes at \<^verbatim>\<open>expr\<close> as a \<^typ>\<open>string\<close>; the string proper ends before
  the first NUL byte, or at the end of the list, where the terminator stands.
  The program never calls \<^verbatim>\<open>setlocale\<close>, so the classification functions of
  \<^verbatim>\<open>ctype.h\<close> are those of the "C" locale: white space is the space and the five
  control characters from \<^verbatim>\<open>\t\<close> to \<^verbatim>\<open>\r\<close>, and a byte outside ASCII belongs to
  none of the classes.
\<close>

definition strlen :: "string \<Rightarrow> nat" where
  "strlen s = length (takeWhile (\<lambda>c. c \<noteq> CHR 0x00) s)"

text \<open>
  \<^verbatim>\<open>len = strlen(expr)\<close> (line 95) stores a \<^verbatim>\<open>size_t\<close> in an \<^verbatim>\<open>int\<close>. The
  conversion keeps a value up to \<^verbatim>\<open>INT_MAX\<close> and is implementation-defined beyond;
  with a 32-bit \<^verbatim>\<open>int\<close> in two's complement the value is reduced modulo \<open>2 ^ 32\<close>
  into the range from \<open>- 2 ^ 31\<close> to \<open>2 ^ 31 - 1\<close>.
\<close>

definition size_t_to_int :: "nat \<Rightarrow> int" where
  "size_t_to_int n = (int n + 2147483648) mod 4294967296 - 2147483648"

definition isspace :: "char \<Rightarrow> bool" where
  "isspace c = (c \<in> {CHR '' '', CHR 0x09, CHR 0x0A, CHR 0x0B, CHR 0x0C, CHR 0x0D})"

definition isdigit :: "char \<Rightarrow> bool" where
  "isdigit c = (c \<in> set ''0123456789'')"

definition islower :: "char \<Rightarrow> bool" where
  "islower c = (c \<in> set ''abcdefghijklmnopqrstuvwxyz'')"

text \<open>
  \<^verbatim>\<open>strchr(s, c)\<close>: the offset of the first occurrence of \<^verbatim>\<open>c\<close> in the C string
  \<^verbatim>\<open>s\<close>, whose terminator counts as part of it; \<open>None\<close> is the null pointer.
\<close>

fun strchr :: "string \<Rightarrow> char \<Rightarrow> nat option" where
  "strchr [] c = (if c = CHR 0x00 then Some 0 else None)"
| "strchr (x # xs) c =
     (if x = c then Some 0
      else if x = CHR 0x00 then None
      else map_option Suc (strchr xs c))"

section \<open>The validator\<close>

datatype State = STATE_EXPECT_OPERAND | STATE_EXPECT_OPERATOR

text \<open>
  A read \<^verbatim>\<open>expr[i]\<close>. The characters of the string stand at the indices below
  \<open>strlen expr\<close>; a read at the terminator or beyond it is a fault of the model
  (stricter than C, where the terminator itself may be read).
\<close>

datatype fault = ReadPastEnd

definition char_at :: "string \<Rightarrow> nat \<Rightarrow> fault + char" where
  "char_at expr i = (if i < strlen expr then Inr (expr ! i) else Inl ReadPastEnd)"

text \<open>
  The inner loop of lines 111 to 113,
  \<^verbatim>\<open>while (i + 1 < len && isdigit(expr[i + 1])) i++;\<close>
  returns the final \<^verbatim>\<open>i\<close>. The read happens only when the first conjunct holds.
\<close>

function digit_run :: "string \<Rightarrow> nat \<Rightarrow> nat \<Rightarrow> fault + nat" where
  "digit_run expr len i =
     (if i + 1 < len then
        (case char_at expr (i + 1) of
           Inl e \<Rightarrow> Inl e
         | Inr c \<Rightarrow> if isdigit c then digit_run expr len (i + 1) else Inr i)
      else Inr i)"
  by pat_completeness auto
termination
  by (relation "measure (\<lambda>(expr, len, i). len - i)") auto

declare digit_run.simps [simp del]

text \<open>
  The two \<^verbatim>\<open>if\<close> chains of the loop body (lines 108 to 144) for a character that
  is not white space: \<open>None\<close> is \<^verbatim>\<open>return FALSE\<close>, otherwise the new values of
  \<^verbatim>\<open>i\<close>, \<^verbatim>\<open>current_state\<close> and \<^verbatim>\<open>parenthesis_balance\<close>.
\<close>

definition classify ::
  "string \<Rightarrow> nat \<Rightarrow> nat \<Rightarrow> char \<Rightarrow> State \<Rightarrow> int \<Rightarrow> fault + (nat \<times> State \<times> int) option" where
  "classify expr len i current_char current_state parenthesis_balance =
     (if current_state = STATE_EXPECT_OPERAND then
        (if isdigit current_char then
           (case digit_run expr len i of
              Inl e \<Rightarrow> Inl e
            | Inr j \<Rightarrow> Inr (Some (j, STATE_EXPECT_OPERATOR, parenthesis_balance)))
         else if islower current_char then
           Inr (Some (i, STATE_EXPECT_OPERATOR, parenthesis_balance))
         else if current_char = CHR ''('' then
           Inr (Some (i, STATE_EXPECT_OPERAND, parenthesis_balance + 1))
         else if current_char = CHR ''+'' \<or> current_char = CHR ''-'' then
           Inr (Some (i, STATE_EXPECT_OPERAND, parenthesis_balance))
         else Inr None)
      else
        (if strchr ''+-*/%'' current_char \<noteq> None then
           Inr (Some (i, STATE_EXPECT_OPERAND, parenthesis_balance))
         else if current_char = CHR '')'' then
           Inr (Some (i, STATE_EXPECT_OPERATOR, parenthesis_balance - 1))
         else Inr None))"

text \<open>
  The \<^verbatim>\<open>for\<close> loop of lines 100 to 154, from index \<open>i\<close> on. It leaves either by
  \<^verbatim>\<open>return FALSE\<close> or by its condition, with the state and the balance it reached.
  The C variables \<^verbatim>\<open>i\<close>, \<^verbatim>\<open>len\<close> and \<^verbatim>\<open>parenthesis_balance\<close> are of type
  \<^verbatim>\<open>int\<close>. The counter \<^verbatim>\<open>i\<close> starts at 0 and only grows, so it is a natural number
  here, and the loop is given the bound \<open>len\<close> as a natural number: \<^verbatim>\<open>i < len\<close> with a
  negative \<^verbatim>\<open>len\<close> is false from the start, as it is with the bound 0 (the caller
  below passes \<open>nat len\<close>). Since \<^verbatim>\<open>i < len\<close> and \<^verbatim>\<open>len\<close> is an \<^verbatim>\<open>int\<close>,
  \<^verbatim>\<open>i + 1\<close> does not overflow. The balance is an integer; it changes by one per
  character read and lies between 0 and \<open>n\<close> when the loop has read \<open>n\<close> characters
  without rejecting (lemma \<open>scan_balance_range\<close> below), so it does not overflow
  either.
\<close>

datatype loop_exit = ReturnFalse | LoopDone State int

function scan :: "string \<Rightarrow> nat \<Rightarrow> nat \<Rightarrow> State \<Rightarrow> int \<Rightarrow> fault + loop_exit" where
  "scan expr len i current_state parenthesis_balance =
     (if i < len then
        (case char_at expr i of
           Inl e \<Rightarrow> Inl e
         | Inr current_char \<Rightarrow>
             if isspace current_char then
               scan expr len (i + 1) current_state parenthesis_balance
             else
               (case classify expr len i current_char current_state parenthesis_balance of
                  Inl e \<Rightarrow> Inl e
                | Inr None \<Rightarrow> Inr ReturnFalse
                | Inr (Some (j, st, bal)) \<Rightarrow>
                    if bal < 0 then Inr ReturnFalse
                    else scan expr len (j + 1) st bal))
      else Inr (LoopDone current_state parenthesis_balance))"
  by pat_completeness auto
termination
proof -
  have run: "i \<le> j \<and> (i < len \<longrightarrow> j < len)"
    if "digit_run expr len i = Inr j" for expr len i j
    using that
  proof (induction expr len i rule: digit_run.induct)
    case (1 expr len i)
    then show ?case
      by (subst (asm) (2) digit_run.simps) (auto split: if_splits sum.splits)
  qed
  have adv: "i \<le> j \<and> (i < len \<longrightarrow> j < len)"
    if "classify expr len i c st bal = Inr (Some (j, st', bal'))"
    for expr len i c st bal j st' bal'
    using that by (auto simp: classify_def split: if_splits sum.splits dest: run)
  show ?thesis
    by (relation "measure (\<lambda>(expr, len, i, st, bal). len - i)") (auto dest!: adv)
qed

declare scan.simps [simp del]

text \<open>
  The function itself: \<^verbatim>\<open>len = strlen(expr)\<close> converted to \<^verbatim>\<open>int\<close>, the loop from 0
  in the state \<^verbatim>\<open>STATE_EXPECT_OPERAND\<close> with balance 0, and the final test of lines
  163 to 167. \<^verbatim>\<open>TRUE\<close> and \<^verbatim>\<open>FALSE\<close> are the booleans. For a string of \<open>2 ^ 31\<close>
  characters or more, \<^verbatim>\<open>len\<close> is negative (the loop does not run) or smaller than the
  length (the loop reads a prefix only).
\<close>

definition isValidExpression :: "string \<Rightarrow> fault + bool" where
  "isValidExpression expr =
     (case scan expr (nat (size_t_to_int (strlen expr))) 0 STATE_EXPECT_OPERAND 0 of
        Inl e \<Rightarrow> Inl e
      | Inr ReturnFalse \<Rightarrow> Inr False
      | Inr (LoopDone current_state parenthesis_balance) \<Rightarrow>
          Inr (parenthesis_balance = 0 \<and> current_state = STATE_EXPECT_OPERATOR))"

section \<open>The loop as a recursion over the remaining characters\<close>

text \<open>
  The proofs below look at the loop through the characters that are still to be read.
  \<open>step\<close> is what one character that is not white space does to the state and the
  balance, together with a flag telling whether a run of digits starts at it;
  \<open>scan_chars\<close> follows the loop on the list of remaining characters. Lemma
  \<open>scan_scan_chars\<close> shows that the index loop \<open>scan\<close> computes exactly this.
\<close>

definition step :: "char \<Rightarrow> State \<Rightarrow> int \<Rightarrow> (bool \<times> State \<times> int) option" where
  "step c st bal =
     (if st = STATE_EXPECT_OPERAND then
        (if isdigit c then Some (True, STATE_EXPECT_OPERATOR, bal)
         else if islower c then Some (False, STATE_EXPECT_OPERATOR, bal)
         else if c = CHR ''('' then Some (False, STATE_EXPECT_OPERAND, bal + 1)
         else if c = CHR ''+'' \<or> c = CHR ''-'' then Some (False, STATE_EXPECT_OPERAND, bal)
         else None)
      else
        (if strchr ''+-*/%'' c \<noteq> None then Some (False, STATE_EXPECT_OPERAND, bal)
         else if c = CHR '')'' then Some (False, STATE_EXPECT_OPERATOR, bal - 1)
         else None))"

function scan_chars :: "string \<Rightarrow> State \<Rightarrow> int \<Rightarrow> loop_exit" where
  "scan_chars [] st bal = LoopDone st bal"
| "scan_chars (c # cs) st bal =
     (if isspace c then scan_chars cs st bal
      else
        (case step c st bal of
           None \<Rightarrow> ReturnFalse
         | Some (run, st', bal') \<Rightarrow>
             if bal' < 0 then ReturnFalse
             else scan_chars (if run then dropWhile isdigit cs else cs) st' bal'))"
  by pat_completeness auto
termination
  by (relation "measure (\<lambda>(cs, st, bal). length cs)")
     (auto simp: le_imp_less_Suc length_dropWhile_le)

section \<open>The index loop and the list of remaining characters\<close>


lemma strlen_le: "strlen expr \<le> length expr"
  by (simp add: strlen_def length_takeWhile_le)

lemma char_at_in: "i < len \<Longrightarrow> len \<le> strlen expr \<Longrightarrow> char_at expr i = Inr (expr ! i)"
  by (simp add: char_at_def)

lemma drop_take_Cons:
  "i < len \<Longrightarrow> len \<le> length expr \<Longrightarrow>
   drop i (take len expr) = expr ! i # drop (Suc i) (take len expr)"
  using Cons_nth_drop_Suc [of i "take len expr"] by simp

lemma digit_run_dropWhile:
  "len \<le> strlen expr \<Longrightarrow> i < len \<Longrightarrow>
   \<exists>j. digit_run expr len i = Inr j \<and> j < len \<and>
       drop (Suc j) (take len expr) = dropWhile isdigit (drop (Suc i) (take len expr))"
proof (induction expr len i rule: digit_run.induct)
  case (1 expr len i)
  show ?case
  proof (cases "i + 1 < len")
    case False
    with "1.prems" show ?thesis
      by (subst digit_run.simps) simp
  next
    case True
    have len: "len \<le> length expr"
      using "1.prems"(1) strlen_le [of expr] by simp
    have rd: "char_at expr (i + 1) = Inr (expr ! (i + 1))"
      using True "1.prems"(1) by (simp add: char_at_in)
    have dr: "drop (Suc i) (take len expr) = expr ! (i + 1) # drop (Suc (Suc i)) (take len expr)"
      using drop_take_Cons [of "Suc i" len expr] True len by simp
    show ?thesis
    proof (cases "isdigit (expr ! (i + 1))")
      case d: True
      from "1.IH" [OF True rd d "1.prems"(1)] True
      obtain j where "digit_run expr len (i + 1) = Inr j" "j < len"
        "drop (Suc j) (take len expr) = dropWhile isdigit (drop (Suc (i + 1)) (take len expr))"
        by auto
      then show ?thesis
        using True rd d dr by (subst digit_run.simps) simp
    next
      case d: False
      then show ?thesis
        using True rd dr "1.prems"(2) by (subst digit_run.simps) simp
    qed
  qed
qed

lemma step_run_digit: "step c st bal = Some (True, st', bal') \<Longrightarrow> isdigit c"
  by (auto simp: step_def split: if_splits)

lemma classify_step:
  "classify expr len i c st bal =
     (case step c st bal of
        None \<Rightarrow> Inr None
      | Some (run, st', bal') \<Rightarrow>
          if run then
            (case digit_run expr len i of
               Inl e \<Rightarrow> Inl e
             | Inr j \<Rightarrow> Inr (Some (j, st', bal')))
          else Inr (Some (i, st', bal')))"
  by (simp add: classify_def step_def)

lemma scan_scan_chars:
  "len \<le> strlen expr \<Longrightarrow> i \<le> len \<Longrightarrow>
   scan expr len i st bal = Inr (scan_chars (drop i (take len expr)) st bal)"
proof (induction expr len i st bal rule: scan.induct)
  case (1 expr len i st bal)
  show ?case
  proof (cases "i < len")
    case False
    with "1.prems" show ?thesis
      by (subst scan.simps) simp
  next
    case True
    have len: "len \<le> length expr"
      using "1.prems"(1) strlen_le [of expr] by simp
    have rd: "char_at expr i = Inr (expr ! i)"
      using True "1.prems"(1) by (simp add: char_at_in)
    have dr: "drop i (take len expr) = expr ! i # drop (Suc i) (take len expr)"
      using drop_take_Cons [OF True len] .
    show ?thesis
    proof (cases "isspace (expr ! i)")
      case sp: True
      have "scan expr len (i + 1) st bal = Inr (scan_chars (drop (i + 1) (take len expr)) st bal)"
        using "1.IH"(1) [OF True rd sp "1.prems"(1)] True by simp
      then show ?thesis
        using True rd sp dr by (subst scan.simps) simp
    next
      case sp: False
      show ?thesis
      proof (cases "step (expr ! i) st bal")
        case None
        then show ?thesis
          using True rd sp dr by (subst scan.simps) (simp add: classify_step)
      next
        case (Some t)
        obtain run st' bal' where t: "t = (run, st', bal')"
          by (cases t) auto
        obtain j where j: "digit_run expr len i = Inr j" "j < len"
          "drop (Suc j) (take len expr) = dropWhile isdigit (drop (Suc i) (take len expr))"
          using digit_run_dropWhile [OF "1.prems"(1) True] by auto
        define k where "k = (if run then j else i)"
        have cl: "classify expr len i (expr ! i) st bal = Inr (Some (k, st', bal'))"
          using Some t j(1) by (simp add: classify_step k_def)
        have k: "k < len"
          using j(2) True by (simp add: k_def)
        have rest: "drop (Suc k) (take len expr)
                    = (if run then dropWhile isdigit (drop (Suc i) (take len expr))
                       else drop (Suc i) (take len expr))"
          using j(3) by (simp add: k_def)
        show ?thesis
        proof (cases "bal' < 0")
          case neg: True
          then show ?thesis
            using True rd sp dr cl Some t by (subst scan.simps) simp
        next
          case neg: False
          have "scan expr len (k + 1) st' bal'
                = Inr (scan_chars (drop (k + 1) (take len expr)) st' bal')"
            using "1.IH"(2) [OF True rd sp cl _ _ _ neg "1.prems"(1)] k by simp
          then show ?thesis
            using True rd sp dr cl Some t neg rest by (subst scan.simps) simp
        qed
      qed
    qed
  qed
qed

lemma size_t_to_int_small: "n < 2 ^ 31 \<Longrightarrow> size_t_to_int n = int n"
  by (simp add: size_t_to_int_def)

lemma size_t_to_int_le: "size_t_to_int n \<le> int n"
proof -
  have "(int n + 2147483648) mod 4294967296 \<le> int n + 2147483648"
    by (rule zmod_le_nonneg_dividend) simp
  then show ?thesis by (simp add: size_t_to_int_def)
qed

lemma len_le_strlen: "nat (size_t_to_int (strlen expr)) \<le> strlen expr"
  using size_t_to_int_le [of "strlen expr"] by simp

lemma len_small: "strlen expr < 2 ^ 31 \<Longrightarrow> nat (size_t_to_int (strlen expr)) = strlen expr"
  by (simp add: size_t_to_int_small)

lemma isValidExpression_take:
  "isValidExpression expr =
     Inr (case scan_chars (take (nat (size_t_to_int (strlen expr))) expr) STATE_EXPECT_OPERAND 0 of
            ReturnFalse \<Rightarrow> False
          | LoopDone st bal \<Rightarrow> bal = 0 \<and> st = STATE_EXPECT_OPERATOR)"
  using scan_scan_chars [OF len_le_strlen, of 0 expr STATE_EXPECT_OPERAND 0]
  by (simp add: isValidExpression_def split: loop_exit.splits)

lemma isValidExpression_chars:
  assumes "strlen expr < 2 ^ 31"
  shows "isValidExpression expr =
     Inr (case scan_chars (takeWhile (\<lambda>c. c \<noteq> CHR 0x00) expr) STATE_EXPECT_OPERAND 0 of
            ReturnFalse \<Rightarrow> False
          | LoopDone st bal \<Rightarrow> bal = 0 \<and> st = STATE_EXPECT_OPERATOR)"
proof -
  have "take (strlen expr) expr = takeWhile (\<lambda>c. c \<noteq> CHR 0x00) expr"
    unfolding strlen_def by (rule takeWhile_eq_take [symmetric])
  then show ?thesis
    using isValidExpression_take [of expr] by (simp only: len_small [OF assms])
qed

section \<open>Facts about the character classes and the loop\<close>

lemma strchr_ops: "strchr ''+-*/%'' c \<noteq> None \<longleftrightarrow> c \<in> set ''+-*/%'' \<or> c = CHR 0x00"
  by auto

lemma digit_not_space: "isdigit c \<Longrightarrow> \<not> isspace c"
  by (auto simp: isdigit_def isspace_def)

lemma lower_not_space: "islower c \<Longrightarrow> \<not> isspace c"
  by (auto simp: islower_def isspace_def)

lemma punct_not_space: "c \<in> set ''+-*/%()'' \<Longrightarrow> \<not> isspace c"
  by (auto simp: isspace_def)

lemma punct_not_digit: "c \<in> set ''+-*/%()'' \<Longrightarrow> \<not> isdigit c"
  by (auto simp: isdigit_def)

lemma nul_not_digit: "isdigit c \<Longrightarrow> c \<noteq> CHR 0x00"
  by (auto simp: isdigit_def)

lemma step_operand_digit:
  "isdigit c \<Longrightarrow> step c STATE_EXPECT_OPERAND bal = Some (True, STATE_EXPECT_OPERATOR, bal)"
  by (simp add: step_def)


lemma lower_not_digit: "islower c \<Longrightarrow> \<not> isdigit c"
  by (auto simp: islower_def isdigit_def)




lemma step_operator_operand:
  "isdigit c \<or> islower c \<or> c = CHR ''('' \<Longrightarrow> step c STATE_EXPECT_OPERATOR bal = None"
  by (auto simp: step_def isdigit_def islower_def)

lemma step_operator_close:
  "step CHR '')'' STATE_EXPECT_OPERATOR bal = Some (False, STATE_EXPECT_OPERATOR, bal - 1)"
  by (simp add: step_def)


lemma step_balance:
  "step c st bal = Some (run, st', bal') \<Longrightarrow>
   bal' = bal + (if c = CHR ''('' then 1 else 0) - (if c = CHR '')'' then 1 else 0)"
  by (auto simp: step_def isdigit_def islower_def split: if_splits)

lemma scan_chars_spaces:
  "\<forall>c\<in>set ws. isspace c \<Longrightarrow> scan_chars (ws @ rest) st bal = scan_chars rest st bal"
  by (induction ws) auto


lemma dropWhile_self: "q = [] \<or> \<not> P (hd q) \<Longrightarrow> dropWhile P q = q"
  by (cases q) auto


lemma dropWhile_boundary:
  "(cs \<noteq> [] \<and> \<not> P (last cs)) \<or> q = [] \<or> \<not> P (hd q) \<Longrightarrow>
   dropWhile P (cs @ q) = dropWhile P cs @ q"
  by (induction cs) (auto simp: dropWhile_self split: if_splits)

lemma last_dropWhile: "dropWhile P cs \<noteq> [] \<Longrightarrow> last (dropWhile P cs) = last cs"
  by (induction cs) (auto split: if_splits)

lemma dropWhile_nonempty_append:
  "dropWhile P cs \<noteq> [] \<Longrightarrow> dropWhile P (cs @ q) = dropWhile P cs @ q"
  by (induction cs) (auto split: if_splits)

lemma scan_chars_reject_append:
  "scan_chars p st bal = ReturnFalse \<Longrightarrow> scan_chars (p @ q) st bal = ReturnFalse"
proof (induction p st bal rule: scan_chars.induct)
  case (1 st bal)
  then show ?case by simp
next
  case (2 c cs st bal)
  show ?case
  proof (cases "isspace c")
    case True
    with 2 show ?thesis by simp
  next
    case sp: False
    show ?thesis
    proof (cases "step c st bal")
      case None
      with sp show ?thesis by simp
    next
      case (Some t)
      obtain run st' bal' where t: "t = (run, st', bal')" by (cases t) auto
      show ?thesis
      proof (cases "bal' < 0")
        case True
        with sp Some t show ?thesis by simp
      next
        case neg: False
        define p' where "p' = (if run then dropWhile isdigit cs else cs)"
        have rej: "scan_chars p' st' bal' = ReturnFalse"
          using "2.prems" sp Some t neg by (simp add: p'_def)
        then have "p' \<noteq> []" by auto
        then have app: "(if run then dropWhile isdigit (cs @ q) else cs @ q) = p' @ q"
          by (auto simp: p'_def dropWhile_nonempty_append)
        have "scan_chars (p' @ q) st' bal' = ReturnFalse"
          using "2.IH"(2) [OF sp Some t [symmetric] refl neg] rej
          by (simp add: p'_def)
        then show ?thesis
          using sp Some t neg app by simp
      qed
    qed
  qed
qed

lemma scan_chars_append:
  "scan_chars p st bal = LoopDone st' bal' \<Longrightarrow>
   p = [] \<or> \<not> isdigit (last p) \<or> q = [] \<or> \<not> isdigit (hd q) \<Longrightarrow>
   scan_chars (p @ q) st bal = scan_chars q st' bal'"
proof (induction p st bal rule: scan_chars.induct)
  case (1 st bal)
  then show ?case by simp
next
  case (2 c cs st bal)
  show ?case
  proof (cases "isspace c")
    case True
    have cnd: "cs = [] \<or> \<not> isdigit (last cs) \<or> q = [] \<or> \<not> isdigit (hd q)"
      using "2.prems"(2) by (cases "cs = []") auto
    have "scan_chars cs st bal = LoopDone st' bal'"
      using "2.prems"(1) True by simp
    from "2.IH"(1) [OF True this cnd] True show ?thesis by simp
  next
    case sp: False
    show ?thesis
    proof (cases "step c st bal")
      case None
      with sp "2.prems" show ?thesis by simp
    next
      case (Some t)
      obtain run st1 bal1 where t: "t = (run, st1, bal1)" by (cases t) auto
      show ?thesis
      proof (cases "bal1 < 0")
        case True
        with sp Some t "2.prems" show ?thesis by simp
      next
        case neg: False
        define p' where "p' = (if run then dropWhile isdigit cs else cs)"
        have fin: "scan_chars p' st1 bal1 = LoopDone st' bal'"
          using "2.prems"(1) sp Some t neg by (simp add: p'_def)
        have dg: "isdigit c" if "run"
          using that Some t by (auto simp: step_run_digit)
        have bd: "(cs \<noteq> [] \<and> \<not> isdigit (last cs)) \<or> q = [] \<or> \<not> isdigit (hd q)" if "run"
        proof (cases "cs = []")
          case True
          with "2.prems"(2) dg [OF that] show ?thesis by simp
        next
          case False
          with "2.prems"(2) show ?thesis by simp
        qed
        have app: "(if run then dropWhile isdigit (cs @ q) else cs @ q) = p' @ q"
          using bd by (auto simp: p'_def dropWhile_boundary)
        have cond: "p' = [] \<or> \<not> isdigit (last p') \<or> q = [] \<or> \<not> isdigit (hd q)"
        proof (cases "p' = []")
          case True
          then show ?thesis by simp
        next
          case False
          then have "cs \<noteq> [] \<and> last p' = last cs"
            by (auto simp: p'_def last_dropWhile split: if_splits)
          then have "last p' = last (c # cs)" by simp
          with "2.prems"(2) show ?thesis by auto
        qed
        have "scan_chars (p' @ q) st1 bal1 = scan_chars q st' bal'"
          using "2.IH"(2) [OF sp Some t [symmetric] refl neg] fin cond
          by (simp add: p'_def)
        then show ?thesis
          using sp Some t neg app by simp
      qed
    qed
  qed
qed

lemma count_list_digits: "\<forall>c\<in>set ds. isdigit c \<Longrightarrow> x \<in> set ''()'' \<Longrightarrow> count_list ds x = 0"
  by (induction ds) (auto simp: isdigit_def)

lemma count_list_dropWhile_digits:
  "x \<in> set ''()'' \<Longrightarrow> count_list (dropWhile isdigit cs) x = count_list cs x"
proof -
  assume x: "x \<in> set ''()''"
  have "count_list cs x = count_list (takeWhile isdigit cs @ dropWhile isdigit cs) x"
    by simp
  also have "\<dots> = count_list (takeWhile isdigit cs) x + count_list (dropWhile isdigit cs) x"
    by (simp only: count_list_append)
  also have "count_list (takeWhile isdigit cs) x = 0"
    using x by (intro count_list_digits) (auto dest: set_takeWhileD)
  finally show ?thesis by simp
qed

lemma space_not_paren: "isspace c \<Longrightarrow> c \<noteq> CHR ''('' \<and> c \<noteq> CHR '')''"
  by (auto simp: isspace_def)

lemma scan_chars_balance:
  "scan_chars cs st bal = LoopDone st' bal' \<Longrightarrow>
   bal' = bal + int (count_list cs CHR ''('') - int (count_list cs CHR '')'')"
proof (induction cs st bal rule: scan_chars.induct)
  case (1 st bal)
  then show ?case by simp
next
  case (2 c cs st bal)
  show ?case
  proof (cases "isspace c")
    case True
    then have "scan_chars cs st bal = LoopDone st' bal'"
      using "2.prems" by simp
    from "2.IH"(1) [OF True this] space_not_paren [OF True] show ?thesis by simp
  next
    case sp: False
    show ?thesis
    proof (cases "step c st bal")
      case None
      with sp "2.prems" show ?thesis by simp
    next
      case (Some t)
      obtain run st1 bal1 where t: "t = (run, st1, bal1)" by (cases t) auto
      show ?thesis
      proof (cases "bal1 < 0")
        case True
        with sp Some t "2.prems" show ?thesis by simp
      next
        case neg: False
        define p' where "p' = (if run then dropWhile isdigit cs else cs)"
        have fin: "scan_chars p' st1 bal1 = LoopDone st' bal'"
          using "2.prems"(1) sp Some t neg by (simp add: p'_def)
        have ih: "bal' = bal1 + int (count_list p' CHR ''('') - int (count_list p' CHR '')'')"
          using "2.IH"(2) [OF sp Some t [symmetric] refl neg] fin by (simp add: p'_def)
        have cnt: "count_list p' CHR ''('' = count_list cs CHR ''(''"
          "count_list p' CHR '')'' = count_list cs CHR '')''"
          by (simp_all add: p'_def count_list_dropWhile_digits)
        have b1: "bal1 = bal + (if c = CHR ''('' then 1 else 0) - (if c = CHR '')'' then 1 else 0)"
          using step_balance Some t by simp
        show ?thesis
          using ih cnt b1 by simp
      qed
    qed
  qed
qed

lemma scan_chars_nonneg:
  "scan_chars cs st bal = LoopDone st' bal' \<Longrightarrow> 0 \<le> bal \<Longrightarrow> 0 \<le> bal'"
proof (induction cs st bal rule: scan_chars.induct)
  case (1 st bal)
  then show ?case by simp
next
  case (2 c cs st bal)
  show ?case
  proof (cases "isspace c")
    case True
    then have "scan_chars cs st bal = LoopDone st' bal'"
      using "2.prems" by simp
    from "2.IH"(1) [OF True this "2.prems"(2)] show ?thesis .
  next
    case sp: False
    show ?thesis
    proof (cases "step c st bal")
      case None
      with sp "2.prems" show ?thesis by simp
    next
      case (Some t)
      obtain run st1 bal1 where t: "t = (run, st1, bal1)" by (cases t) auto
      show ?thesis
      proof (cases "bal1 < 0")
        case True
        with sp Some t "2.prems" show ?thesis by simp
      next
        case neg: False
        have fin: "scan_chars (if run then dropWhile isdigit cs else cs) st1 bal1 = LoopDone st' bal'"
          using "2.prems"(1) sp Some t neg by simp
        from "2.IH"(2) [OF sp Some t [symmetric] refl neg fin] neg show ?thesis by simp
      qed
    qed
  qed
qed


lemma step_run_operator: "step c st bal = Some (True, st', bal') \<Longrightarrow> st' = STATE_EXPECT_OPERATOR"
  by (auto simp: step_def split: if_splits)

lemma step_opener:
  "c \<in> set ''+-*/%('' \<Longrightarrow> step c st bal = Some (run, st', bal') \<Longrightarrow>
   st' = STATE_EXPECT_OPERAND \<and> \<not> run"
  by (auto simp: step_def isdigit_def islower_def split: if_splits)

lemma step_digit_operator:
  "isdigit c \<Longrightarrow> step c st bal = Some (run, st', bal') \<Longrightarrow> st' = STATE_EXPECT_OPERATOR"
  using step_operator_operand [of c bal]
  by (cases st) (auto simp: step_operand_digit)

lemma scan_chars_last_opener:
  "c \<in> set ''+-*/%('' \<Longrightarrow> scan_chars (p @ [c]) st bal = LoopDone st' bal' \<Longrightarrow>
   st' = STATE_EXPECT_OPERAND"
proof (induction p st bal rule: scan_chars.induct)
  case (1 st bal)
  have nd: "\<not> isspace c" using "1.prems"(1) by (auto simp: isspace_def)
  show ?case
  proof (cases "step c st bal")
    case None
    with nd "1.prems"(2) show ?thesis by simp
  next
    case (Some t)
    obtain run st1 bal1 where t: "t = (run, st1, bal1)" by (cases t) auto
    have "st1 = STATE_EXPECT_OPERAND \<and> \<not> run"
      using step_opener [OF "1.prems"(1), of st bal run st1 bal1] Some t by simp
    with nd "1.prems"(2) Some t show ?thesis by (simp split: if_splits)
  qed
next
  case (2 x cs st bal)
  have cnd: "\<not> isdigit c" using "2.prems"(1) by (auto simp: isdigit_def)
  show ?case
  proof (cases "isspace x")
    case True
    then have "scan_chars (cs @ [c]) st bal = LoopDone st' bal'"
      using "2.prems"(2) by simp
    from "2.IH"(1) [OF True "2.prems"(1) this] show ?thesis .
  next
    case sp: False
    show ?thesis
    proof (cases "step x st bal")
      case None
      with sp "2.prems"(2) show ?thesis by simp
    next
      case (Some t)
      obtain run st1 bal1 where t: "t = (run, st1, bal1)" by (cases t) auto
      show ?thesis
      proof (cases "bal1 < 0")
        case True
        with sp Some t "2.prems"(2) show ?thesis by simp
      next
        case neg: False
        define p' where "p' = (if run then dropWhile isdigit cs else cs)"
        have app: "(if run then dropWhile isdigit (cs @ [c]) else cs @ [c]) = p' @ [c]"
          using cnd by (simp add: p'_def dropWhile_boundary)
        have "scan_chars (p' @ [c]) st1 bal1 = LoopDone st' bal'"
          using "2.prems"(2) sp Some t neg app by simp
        then show ?thesis
          using "2.IH"(2) [OF sp Some t [symmetric] refl neg "2.prems"(1)]
          by (simp add: p'_def)
      qed
    qed
  qed
qed

lemma scan_chars_last_digit:
  "isdigit c \<Longrightarrow> scan_chars (p @ [c]) st bal = LoopDone st' bal' \<Longrightarrow>
   st' = STATE_EXPECT_OPERATOR"
proof (induction p st bal rule: scan_chars.induct)
  case (1 st bal)
  have nd: "\<not> isspace c" using "1.prems"(1) by (rule digit_not_space)
  show ?case
  proof (cases "step c st bal")
    case None
    with nd "1.prems"(2) show ?thesis by simp
  next
    case (Some t)
    obtain run st1 bal1 where t: "t = (run, st1, bal1)" by (cases t) auto
    have "st1 = STATE_EXPECT_OPERATOR"
      using step_digit_operator [OF "1.prems"(1), of st bal run st1 bal1] Some t by simp
    with nd "1.prems"(2) Some t show ?thesis by (simp split: if_splits)
  qed
next
  case (2 x cs st bal)
  show ?case
  proof (cases "isspace x")
    case True
    then have "scan_chars (cs @ [c]) st bal = LoopDone st' bal'"
      using "2.prems"(2) by simp
    from "2.IH"(1) [OF True "2.prems"(1) this] show ?thesis .
  next
    case sp: False
    show ?thesis
    proof (cases "step x st bal")
      case None
      with sp "2.prems"(2) show ?thesis by simp
    next
      case (Some t)
      obtain run st1 bal1 where t: "t = (run, st1, bal1)" by (cases t) auto
      show ?thesis
      proof (cases "bal1 < 0")
        case True
        with sp Some t "2.prems"(2) show ?thesis by simp
      next
        case neg: False
        define p' where "p' = (if run then dropWhile isdigit cs else cs)"
        show ?thesis
        proof (cases "run \<and> dropWhile isdigit cs = []")
          case True
          then have "\<forall>y\<in>set cs. isdigit y"
            by (simp add: dropWhile_eq_Nil_conv)
          then have "dropWhile isdigit (cs @ [c]) = []"
            using "2.prems"(1) by (simp add: dropWhile_eq_Nil_conv)
          then have "LoopDone st1 bal1 = LoopDone st' bal'"
            using "2.prems"(2) sp Some t neg True by simp
          moreover have "st1 = STATE_EXPECT_OPERATOR"
            using step_run_operator [of x st bal st1 bal1] Some t True by simp
          ultimately show ?thesis by simp
        next
          case False
          then have app: "(if run then dropWhile isdigit (cs @ [c]) else cs @ [c]) = p' @ [c]"
            by (auto simp: p'_def dropWhile_nonempty_append)
          have "scan_chars (p' @ [c]) st1 bal1 = LoopDone st' bal'"
            using "2.prems"(2) sp Some t neg app by simp
          then show ?thesis
            using "2.IH"(2) [OF sp Some t [symmetric] refl neg "2.prems"(1)]
            by (simp add: p'_def)
        qed
      qed
    qed
  qed
qed

lemma takeWhile_nul_append:
  "CHR 0x00 \<notin> set p \<Longrightarrow>
   takeWhile (\<lambda>c. c \<noteq> CHR 0x00) (p @ q) = p @ takeWhile (\<lambda>c. c \<noteq> CHR 0x00) q"
  by (rule takeWhile_append2) auto

lemma takeWhile_nul_id:
  "CHR 0x00 \<notin> set p \<Longrightarrow> takeWhile (\<lambda>c. c \<noteq> CHR 0x00) p = p"
  by (rule takeWhile_eq_all_conv [THEN iffD2]) auto

lemma space_not_nul: "isspace c \<Longrightarrow> c \<noteq> CHR 0x00"
  by (auto simp: isspace_def)

lemma isValidExpression_reject:
  "strlen expr < 2 ^ 31 \<Longrightarrow>
   scan_chars (takeWhile (\<lambda>c. c \<noteq> CHR 0x00) expr) STATE_EXPECT_OPERAND 0 = ReturnFalse \<Longrightarrow>
   isValidExpression expr = Inr False"
  by (simp add: isValidExpression_chars)



lemma strlen_no_nul: "CHR 0x00 \<notin> set p \<Longrightarrow> strlen p = length p"
  by (simp add: strlen_def takeWhile_nul_id)

lemma scan_whole:
  "CHR 0x00 \<notin> set p \<Longrightarrow> scan p (strlen p) 0 st bal = Inr (scan_chars p st bal)"
  using scan_scan_chars [of "strlen p" p 0 st bal] by (simp add: strlen_no_nul)

lemma scan_reject_at:
  "i < len \<Longrightarrow> char_at expr i = Inr c \<Longrightarrow> \<not> isspace c \<Longrightarrow> step c st bal = None \<Longrightarrow>
   scan expr len i st bal = Inr ReturnFalse"
  by (subst scan.simps) (simp add: classify_step)






lemma takeWhile_nul_snoc:
  "CHR 0x00 \<notin> set p \<Longrightarrow> c \<noteq> CHR 0x00 \<Longrightarrow>
   takeWhile (\<lambda>c. c \<noteq> CHR 0x00) (p @ c # rest) = p @ c # takeWhile (\<lambda>c. c \<noteq> CHR 0x00) rest"
  using takeWhile_nul_append [of "p @ [c]" rest] by simp

lemma count_list_le_length: "count_list xs x \<le> length xs"
  by (induction xs) auto

lemma scan_balance_range:
  assumes "n \<le> strlen expr"
    and "scan expr n 0 STATE_EXPECT_OPERAND 0 = Inr (LoopDone st bal)"
  shows "0 \<le> bal \<and> bal \<le> int n"
proof -
  have p: "scan_chars (take n expr) STATE_EXPECT_OPERAND 0 = LoopDone st bal"
    using scan_scan_chars [OF assms(1), of 0 STATE_EXPECT_OPERAND 0] assms(2) by simp
  have "bal = int (count_list (take n expr) CHR ''('') - int (count_list (take n expr) CHR '')'')"
    using scan_chars_balance [OF p] by simp
  moreover have "count_list (take n expr) CHR ''('' \<le> n"
    using count_list_le_length [of "take n expr" "CHR ''(''"] by simp
  moreover have "0 \<le> bal"
    using scan_chars_nonneg [OF p] by simp
  ultimately show ?thesis by linarith
qed




section \<open>Totality and the bounds of the reads\<close>

text \<open>
  Claim C7. The validator is total and free of faults: for every input it returns a
  boolean; the loop, started at any index in any state, ends with one of its two exits;
  and the look-ahead of the digit run never reads at or past the terminator, that is,
  \<^verbatim>\<open>expr[i + 1]\<close> is read only when \<^verbatim>\<open>i + 1 < len\<close> (a read elsewhere would be
  the fault \<open>ReadPastEnd\<close>). This holds with the length of the string as the bound of
  the loop and with the value of \<^verbatim>\<open>len\<close> that the conversion to \<^verbatim>\<open>int\<close> gives,
  which is never more than the length.
\<close>

theorem isValidExpression_total:
  "(\<exists>b. isValidExpression expr = Inr b)
   \<and> (\<forall>i st bal. \<exists>r. scan expr (strlen expr) i st bal = Inr r)
   \<and> (\<forall>i. \<exists>j. digit_run expr (strlen expr) i = Inr j)
   \<and> (\<forall>i st bal. \<exists>r. scan expr (nat (size_t_to_int (strlen expr))) i st bal = Inr r)
   \<and> (\<forall>i. \<exists>j. digit_run expr (nat (size_t_to_int (strlen expr))) i = Inr j)"
proof -
  have a: "\<exists>b. isValidExpression expr = Inr b"
    by (simp add: isValidExpression_take)
  have b: "\<exists>r. scan expr len i st bal = Inr r" if "len \<le> strlen expr" for len i st bal
  proof (cases "i \<le> len")
    case True
    with that show ?thesis by (simp add: scan_scan_chars)
  next
    case False
    then show ?thesis by (subst scan.simps) simp
  qed
  have c: "\<exists>j. digit_run expr len i = Inr j" if "len \<le> strlen expr" for len i
  proof (cases "i < len")
    case True
    then show ?thesis using digit_run_dropWhile [OF that, of i] by auto
  next
    case False
    then show ?thesis by (subst digit_run.simps) simp
  qed
  from a b [OF le_refl] c [OF le_refl] b [OF len_le_strlen] c [OF len_le_strlen]
  show ?thesis by blast
qed

theorem isValidExpression_total_witness:
  "isValidExpression ''12+(a'' = Inr False
   \<and> (\<exists>r. scan ''12+(a'' (strlen ''12+(a'') 3 STATE_EXPECT_OPERAND 0 = Inr r)
   \<and> (\<exists>j. digit_run ''12+(a'' (strlen ''12+(a'') 0 = Inr j)"
proof -
  have "isValidExpression ''12+(a'' = Inr False" by code_simp
  then show ?thesis using isValidExpression_total [of "''12+(a''"] by blast
qed

section \<open>The final test\<close>

text \<open>
  Claim C1. The validator accepts exactly when the loop runs to its end and leaves the
  balance 0 and the state \<^verbatim>\<open>STATE_EXPECT_OPERATOR\<close>. So an input of white space only
  (the empty string too) is rejected, whatever its length, and an input on which the
  loop ends in the state \<^verbatim>\<open>STATE_EXPECT_OPERAND\<close> is rejected. A string of fewer than
  \<open>2 ^ 31\<close> characters (free of NUL) whose last character that is not white space is an
  operator sign or an opening parenthesis is rejected. \<^verbatim>\<open>"a+"\<close> is rejected and
  \<^verbatim>\<open>"a+1"\<close> accepted.
\<close>

theorem accept_iff_final_state:
  "(isValidExpression expr = Inr True \<longleftrightarrow>
      scan expr (nat (size_t_to_int (strlen expr))) 0 STATE_EXPECT_OPERAND 0
        = Inr (LoopDone STATE_EXPECT_OPERATOR 0))
   \<and> ((\<forall>c\<in>set expr. isspace c) \<longrightarrow> isValidExpression expr = Inr False)
   \<and> (\<forall>bal. scan expr (nat (size_t_to_int (strlen expr))) 0 STATE_EXPECT_OPERAND 0
               = Inr (LoopDone STATE_EXPECT_OPERAND bal)
          \<longrightarrow> isValidExpression expr = Inr False)
   \<and> (\<forall>p c ws. strlen expr < 2 ^ 31 \<and> expr = p @ c # ws \<and> CHR 0x00 \<notin> set p
                 \<and> c \<in> set ''+-*/%('' \<and> (\<forall>w\<in>set ws. isspace w)
          \<longrightarrow> isValidExpression expr = Inr False)
   \<and> isValidExpression '''' = Inr False
   \<and> isValidExpression ''a+'' = Inr False
   \<and> isValidExpression ''a+1'' = Inr True"
proof -
  have final: "isValidExpression expr = Inr True \<longleftrightarrow>
      scan expr (nat (size_t_to_int (strlen expr))) 0 STATE_EXPECT_OPERAND 0
        = Inr (LoopDone STATE_EXPECT_OPERATOR 0)"
    by (auto simp: isValidExpression_def split: sum.splits loop_exit.splits)
  have operand: "isValidExpression expr = Inr False"
    if "scan expr (nat (size_t_to_int (strlen expr))) 0 STATE_EXPECT_OPERAND 0
        = Inr (LoopDone STATE_EXPECT_OPERAND bal)"
    for bal
    using that by (simp add: isValidExpression_def)
  have blank: "isValidExpression expr = Inr False" if ws: "\<forall>c\<in>set expr. isspace c"
  proof -
    define n where "n = nat (size_t_to_int (strlen expr))"
    have "\<forall>c\<in>set (take n expr). isspace c"
      using ws by (auto dest: in_set_takeD)
    then have "scan_chars (take n expr) STATE_EXPECT_OPERAND 0 = LoopDone STATE_EXPECT_OPERAND 0"
      using scan_chars_spaces [of "take n expr" "[]" STATE_EXPECT_OPERAND 0] by simp
    then show ?thesis
      using isValidExpression_take [of expr] by (simp add: n_def)
  qed
  have trailing: "isValidExpression expr = Inr False"
    if len: "strlen expr < 2 ^ 31"
      and e: "expr = p @ c # ws" and p: "CHR 0x00 \<notin> set p" and c: "c \<in> set ''+-*/%(''"
      and ws: "\<forall>w\<in>set ws. isspace w" for p c ws
  proof -
    have "CHR 0x00 \<notin> set ws"
      using ws space_not_nul by blast
    moreover have "c \<noteq> CHR 0x00"
      using c by auto
    ultimately have "CHR 0x00 \<notin> set expr"
      using p e by auto
    then have chars: "takeWhile (\<lambda>c. c \<noteq> CHR 0x00) expr = (p @ [c]) @ ws"
      using e by (simp add: takeWhile_nul_id)
    show ?thesis
    proof (cases "scan_chars (p @ [c]) STATE_EXPECT_OPERAND 0")
      case ReturnFalse
      then have "scan_chars ((p @ [c]) @ ws) STATE_EXPECT_OPERAND 0 = ReturnFalse"
        by (rule scan_chars_reject_append)
      then show ?thesis
        using chars by (simp add: isValidExpression_chars [OF len])
    next
      case (LoopDone st' bal')
      have st': "st' = STATE_EXPECT_OPERAND"
        using scan_chars_last_opener [OF c LoopDone] .
      have "\<not> isdigit (last (p @ [c]))"
        using c by (auto simp: isdigit_def)
      then have "scan_chars ((p @ [c]) @ ws) STATE_EXPECT_OPERAND 0 = scan_chars ws st' bal'"
        using scan_chars_append [OF LoopDone, of ws] by blast
      also have "\<dots> = LoopDone st' bal'"
        using scan_chars_spaces [OF ws, of "[]" st' bal'] by simp
      finally show ?thesis
        using chars st' by (simp add: isValidExpression_chars [OF len])
    qed
  qed
  have ex0: "isValidExpression '''' = Inr False" by code_simp
  have ex1: "isValidExpression ''a+'' = Inr False" by code_simp
  have ex2: "isValidExpression ''a+1'' = Inr True" by code_simp
  from final operand blank trailing ex0 ex1 ex2 show ?thesis by blast
qed

theorem accept_iff_final_state_witness:
  "list_all isspace [CHR '' '', CHR 0x09] \<and> isValidExpression [CHR '' '', CHR 0x09] = Inr False
   \<and> scan ''(a+ '' (nat (size_t_to_int (strlen ''(a+ ''))) 0 STATE_EXPECT_OPERAND 0
       = Inr (LoopDone STATE_EXPECT_OPERAND 1)
   \<and> isValidExpression ''(a+ '' = Inr False
   \<and> scan ''(a)'' (nat (size_t_to_int (strlen ''(a)''))) 0 STATE_EXPECT_OPERAND 0
       = Inr (LoopDone STATE_EXPECT_OPERATOR 0)
   \<and> isValidExpression ''(a)'' = Inr True
   \<and> strlen (''a*'' @ CHR ''('' # [CHR '' '']) < 2 ^ 31
   \<and> isValidExpression (''a*'' @ CHR ''('' # [CHR '' '']) = Inr False"
proof -
  have sp: "\<forall>c\<in>set [CHR '' '', CHR 0x09]. isspace c"
    by (simp add: isspace_def)
  have a: "isValidExpression [CHR '' '', CHR 0x09] = Inr False"
    using accept_iff_final_state [of "[CHR '' '', CHR 0x09]"] sp by blast
  have s1: "scan ''(a+ '' (nat (size_t_to_int (strlen ''(a+ ''))) 0 STATE_EXPECT_OPERAND 0
            = Inr (LoopDone STATE_EXPECT_OPERAND 1)"
    by code_simp
  have b: "isValidExpression ''(a+ '' = Inr False"
    using accept_iff_final_state [of "''(a+ ''"] s1 by blast
  have s2: "scan ''(a)'' (nat (size_t_to_int (strlen ''(a)''))) 0 STATE_EXPECT_OPERAND 0
            = Inr (LoopDone STATE_EXPECT_OPERATOR 0)"
    by code_simp
  have c: "isValidExpression ''(a)'' = Inr True"
    using accept_iff_final_state [of "''(a)''"] s2 by blast
  have len: "strlen (''a*'' @ CHR ''('' # [CHR '' '']) < 2 ^ 31"
    by (simp add: strlen_def)
  have sp1: "\<forall>w\<in>set [CHR '' '']. isspace w"
    by (simp add: isspace_def)
  have "CHR 0x00 \<notin> set ''a*''" and "CHR ''('' \<in> set ''+-*/%(''"
    by simp_all
  with len sp1 have d: "isValidExpression (''a*'' @ CHR ''('' # [CHR '' '']) = Inr False"
    using accept_iff_final_state [of "''a*'' @ CHR ''('' # [CHR '' '']"] by blast
  from sp a s1 b s2 c len d show ?thesis by (simp add: list_all_iff)
qed

section \<open>The balance of the parentheses\<close>




section \<open>Adjacent operands\<close>

text \<open>
  Claim C3. A digit, a lowercase letter or \<^verbatim>\<open>(\<close> met in the state
  \<^verbatim>\<open>STATE_EXPECT_OPERATOR\<close> makes the loop return false at once, whatever the index, the
  bound of the loop and the balance. So when the loop run on a prefix \<open>p\<close> (free of NUL)
  ends in that state, every string of fewer than \<open>2 ^ 31\<close> characters that continues
  \<open>p\<close> with a letter, with \<^verbatim>\<open>(\<close>, or with a digit that does not prolong a digit at the
  end of \<open>p\<close>, is rejected; in particular \<^verbatim>\<open>"7a"\<close> and \<^verbatim>\<open>"(a+b)(c-d)"\<close>.
\<close>

theorem adjacent_operands_rejected:
  "(i < len \<and> char_at expr i = Inr c \<and> (isdigit c \<or> islower c \<or> c = CHR ''('')
      \<longrightarrow> scan expr len i STATE_EXPECT_OPERATOR bal = Inr ReturnFalse)
   \<and> (strlen (p @ c # rest) < 2 ^ 31 \<and> CHR 0x00 \<notin> set p
        \<and> scan p (strlen p) 0 STATE_EXPECT_OPERAND 0 = Inr (LoopDone STATE_EXPECT_OPERATOR b)
        \<and> (islower c \<or> c = CHR ''('' \<or> (isdigit c \<and> \<not> isdigit (last p)))
      \<longrightarrow> isValidExpression (p @ c # rest) = Inr False)
   \<and> isValidExpression ''7a'' = Inr False
   \<and> isValidExpression ''(a+b)(c-d)'' = Inr False"
proof -
  have nsp: "\<not> isspace c" if "isdigit c \<or> islower c \<or> c = CHR ''(''"
    using that digit_not_space lower_not_space punct_not_space [of c] by auto
  have loop: "scan expr len i STATE_EXPECT_OPERATOR bal = Inr ReturnFalse"
    if "i < len" and "char_at expr i = Inr c" and c: "isdigit c \<or> islower c \<or> c = CHR ''(''"
    using that(1,2) nsp [OF c] step_operator_operand [OF c] by (rule scan_reject_at)
  have whole: "isValidExpression (p @ c # rest) = Inr False"
    if len: "strlen (p @ c # rest) < 2 ^ 31" and p: "CHR 0x00 \<notin> set p"
      and sc: "scan p (strlen p) 0 STATE_EXPECT_OPERAND 0 = Inr (LoopDone STATE_EXPECT_OPERATOR b)"
      and c: "islower c \<or> c = CHR ''('' \<or> (isdigit c \<and> \<not> isdigit (last p))"
  proof -
    have c': "isdigit c \<or> islower c \<or> c = CHR ''(''"
      using c by blast
    have cn: "c \<noteq> CHR 0x00"
      using c' by (auto simp: isdigit_def islower_def)
    define r where "r = takeWhile (\<lambda>c. c \<noteq> CHR 0x00) rest"
    have chars: "takeWhile (\<lambda>c. c \<noteq> CHR 0x00) (p @ c # rest) = p @ c # r"
      using p cn by (simp add: takeWhile_nul_append r_def)
    have fin: "scan_chars p STATE_EXPECT_OPERAND 0 = LoopDone STATE_EXPECT_OPERATOR b"
      using sc scan_whole [OF p] by simp
    have "\<not> isdigit (last p) \<or> \<not> isdigit (hd (c # r))"
      using c lower_not_digit [of c] punct_not_digit [of c] by auto
    then have "scan_chars (p @ c # r) STATE_EXPECT_OPERAND 0
               = scan_chars (c # r) STATE_EXPECT_OPERATOR b"
      using scan_chars_append [OF fin, of "c # r"] by blast
    also have "\<dots> = ReturnFalse"
      using nsp [OF c'] step_operator_operand [OF c'] by simp
    finally have "scan_chars (takeWhile (\<lambda>c. c \<noteq> CHR 0x00) (p @ c # rest))
                    STATE_EXPECT_OPERAND 0 = ReturnFalse"
      by (simp only: chars)
    with len show ?thesis by (rule isValidExpression_reject)
  qed
  have ex1: "isValidExpression ''7a'' = Inr False" by code_simp
  have ex2: "isValidExpression ''(a+b)(c-d)'' = Inr False" by code_simp
  from loop whole ex1 ex2 show ?thesis by blast
qed

theorem adjacent_operands_rejected_witness:
  "scan ''7a'' 2 1 STATE_EXPECT_OPERATOR 0 = Inr ReturnFalse
   \<and> strlen (''(a+b)'' @ CHR ''('' # ''c-d)'') < 2 ^ 31
   \<and> isValidExpression (''(a+b)'' @ CHR ''('' # ''c-d)'') = Inr False
   \<and> strlen (''1 '' @ CHR ''2'' # ''+3'') < 2 ^ 31
   \<and> isValidExpression (''1 '' @ CHR ''2'' # ''+3'') = Inr False"
proof -
  have a: "scan ''7a'' 2 1 STATE_EXPECT_OPERATOR 0 = Inr ReturnFalse"
    using adjacent_operands_rejected [of 1 2 "''7a''" "CHR ''a''" 0]
    by (simp add: char_at_def strlen_def islower_def)
  have l1: "strlen (''(a+b)'' @ CHR ''('' # ''c-d)'') < 2 ^ 31"
    by (simp add: strlen_def)
  have s1: "scan ''(a+b)'' (strlen ''(a+b)'') 0 STATE_EXPECT_OPERAND 0
            = Inr (LoopDone STATE_EXPECT_OPERATOR 0)"
    by code_simp
  have b: "isValidExpression (''(a+b)'' @ CHR ''('' # ''c-d)'') = Inr False"
    using adjacent_operands_rejected [of _ _ _ "CHR ''(''" _ "''(a+b)''" "''c-d)''" 0] s1 l1
    by simp
  have l2: "strlen (''1 '' @ CHR ''2'' # ''+3'') < 2 ^ 31"
    by (simp add: strlen_def)
  have s2: "scan ''1 '' (strlen ''1 '') 0 STATE_EXPECT_OPERAND 0
            = Inr (LoopDone STATE_EXPECT_OPERATOR 0)"
    by code_simp
  have c: "isValidExpression (''1 '' @ CHR ''2'' # ''+3'') = Inr False"
    using adjacent_operands_rejected [of _ _ _ "CHR ''2''" _ "''1 ''" "''+3''" 0] s2 l2
    by (simp add: isdigit_def)
  from a l1 b l2 c show ?thesis by blast
qed

section \<open>Unary signs\<close>




section \<open>Runs of digits\<close>




section \<open>The running check of the balance\<close>

text \<open>
  Claim C6. When the balance is negative after a character has been classified, the
  loop returns false at that point and reads no further. A \<^verbatim>\<open>)\<close> met in the state
  \<^verbatim>\<open>STATE_EXPECT_OPERATOR\<close> with a balance of 0 (or less) is classified, not refused,
  and it is the check of the balance that rejects. In a string of fewer than \<open>2 ^ 31\<close>
  characters, what follows a rejected prefix (free of NUL) never matters. In
  \<^verbatim>\<open>"a)(b+c)"\<close> the \<^verbatim>\<open>)\<close> at index 1 brings the balance to -1 and the loop returns
  false there, so every such string that starts with \<^verbatim>\<open>"a)"\<close> is rejected.
\<close>

theorem negative_balance_rejected:
  "(i < len \<and> char_at expr i = Inr c \<and> \<not> isspace c
        \<and> classify expr len i c st bal = Inr (Some (j, st', bal')) \<and> bal' < 0
      \<longrightarrow> scan expr len i st bal = Inr ReturnFalse)
   \<and> (i < len \<and> char_at expr i = Inr CHR '')'' \<and> bal \<le> 0
      \<longrightarrow> classify expr len i CHR '')'' STATE_EXPECT_OPERATOR bal
            = Inr (Some (i, STATE_EXPECT_OPERATOR, bal - 1))
          \<and> scan expr len i STATE_EXPECT_OPERATOR bal = Inr ReturnFalse)
   \<and> (strlen (p @ rest) < 2 ^ 31 \<and> CHR 0x00 \<notin> set p
        \<and> scan p (strlen p) 0 STATE_EXPECT_OPERAND 0 = Inr ReturnFalse
      \<longrightarrow> isValidExpression (p @ rest) = Inr False)
   \<and> classify ''a)(b+c)'' 7 1 CHR '')'' STATE_EXPECT_OPERATOR 0
       = Inr (Some (1, STATE_EXPECT_OPERATOR, - 1))
   \<and> scan ''a)(b+c)'' 7 1 STATE_EXPECT_OPERATOR 0 = Inr ReturnFalse
   \<and> (strlen (''a)'' @ rest) < 2 ^ 31 \<longrightarrow> isValidExpression (''a)'' @ rest) = Inr False)
   \<and> isValidExpression ''a)(b+c)'' = Inr False"
proof -
  have check: "scan expr len i st bal = Inr ReturnFalse"
    if "i < len" and "char_at expr i = Inr c" and "\<not> isspace c"
      and "classify expr len i c st bal = Inr (Some (j, st', bal'))" and "bal' < 0"
    using that by (subst scan.simps) simp
  have cl: "classify expr len i CHR '')'' STATE_EXPECT_OPERATOR bal
            = Inr (Some (i, STATE_EXPECT_OPERATOR, bal - 1))"
    by (simp add: classify_def)
  have close: "scan expr len i STATE_EXPECT_OPERATOR bal = Inr ReturnFalse"
    if "i < len" and "char_at expr i = Inr CHR '')''" and "bal \<le> 0"
    using that cl by (subst scan.simps) (simp add: isspace_def)
  have ext: "isValidExpression (p @ rest) = Inr False"
    if len: "strlen (p @ rest) < 2 ^ 31" and p: "CHR 0x00 \<notin> set p"
      and sc: "scan p (strlen p) 0 STATE_EXPECT_OPERAND 0 = Inr ReturnFalse"
    for p
  proof -
    have "scan_chars p STATE_EXPECT_OPERAND 0 = ReturnFalse"
      using sc scan_whole [OF p] by simp
    then have "scan_chars (p @ takeWhile (\<lambda>c. c \<noteq> CHR 0x00) rest) STATE_EXPECT_OPERAND 0
               = ReturnFalse"
      by (rule scan_chars_reject_append)
    then have "scan_chars (takeWhile (\<lambda>c. c \<noteq> CHR 0x00) (p @ rest)) STATE_EXPECT_OPERAND 0
               = ReturnFalse"
      by (simp only: takeWhile_nul_append [OF p])
    with len show ?thesis by (rule isValidExpression_reject)
  qed
  have ex1: "classify ''a)(b+c)'' 7 1 CHR '')'' STATE_EXPECT_OPERATOR 0
             = Inr (Some (1, STATE_EXPECT_OPERATOR, - 1))"
    by (simp add: classify_def)
  have ex2: "scan ''a)(b+c)'' 7 1 STATE_EXPECT_OPERATOR 0 = Inr ReturnFalse"
    by code_simp
  have "scan ''a)'' (strlen ''a)'') 0 STATE_EXPECT_OPERAND 0 = Inr ReturnFalse"
    by code_simp
  then have ex3: "isValidExpression (''a)'' @ rest) = Inr False"
    if "strlen (''a)'' @ rest) < 2 ^ 31"
    using ext [of "''a)''"] that by simp
  have ex4: "isValidExpression ''a)(b+c)'' = Inr False" by code_simp
  from check cl close ext ex1 ex2 ex3 ex4 show ?thesis by blast
qed

theorem negative_balance_rejected_witness:
  "classify ''(a))'' 4 3 CHR '')'' STATE_EXPECT_OPERATOR 0 = Inr (Some (3, STATE_EXPECT_OPERATOR, - 1))
   \<and> scan ''(a))'' 4 3 STATE_EXPECT_OPERATOR 0 = Inr ReturnFalse
   \<and> scan ''(a))'' (strlen ''(a))'') 0 STATE_EXPECT_OPERAND 0 = Inr ReturnFalse
   \<and> strlen (''(a))'' @ ''+(b'') < 2 ^ 31
   \<and> isValidExpression (''(a))'' @ ''+(b'') = Inr False
   \<and> scan ''a)'' 2 1 STATE_EXPECT_OPERATOR 0 = Inr ReturnFalse
   \<and> strlen (''a)'' @ ''(b+c)'') < 2 ^ 31
   \<and> isValidExpression (''a)'' @ ''(b+c)'') = Inr False"
proof -
  have rd: "char_at ''(a))'' 3 = Inr CHR '')''"
    by (simp add: char_at_def strlen_def)
  have cl: "classify ''(a))'' 4 3 CHR '')'' STATE_EXPECT_OPERATOR 0
            = Inr (Some (3, STATE_EXPECT_OPERATOR, - 1))"
    by (simp add: classify_def)
  have a: "scan ''(a))'' 4 3 STATE_EXPECT_OPERATOR 0 = Inr ReturnFalse"
    using negative_balance_rejected
      [of 3 4 "''(a))''" "CHR '')''" STATE_EXPECT_OPERATOR 0 3 STATE_EXPECT_OPERATOR "- 1"]
      rd cl
    by (simp add: isspace_def)
  have s: "scan ''(a))'' (strlen ''(a))'') 0 STATE_EXPECT_OPERAND 0 = Inr ReturnFalse"
    by code_simp
  have l1: "strlen (''(a))'' @ ''+(b'') < 2 ^ 31"
    by (simp add: strlen_def)
  have b: "isValidExpression (''(a))'' @ ''+(b'') = Inr False"
    using negative_balance_rejected [of _ _ _ _ _ _ _ _ _ "''(a))''" "''+(b''"] s l1
    by simp
  have c: "scan ''a)'' 2 1 STATE_EXPECT_OPERATOR 0 = Inr ReturnFalse"
    using negative_balance_rejected [of 1 2 "''a)''" _ _ 0]
    by (simp add: char_at_def strlen_def)
  have l2: "strlen (''a)'' @ ''(b+c)'') < 2 ^ 31"
    by (simp add: strlen_def)
  have d: "isValidExpression (''a)'' @ ''(b+c)'') = Inr False"
    using negative_balance_rejected [of _ _ _ _ _ _ _ _ _ _ "''(b+c)''"] l2
    by blast
  from cl a s l1 b c l2 d show ?thesis by blast
qed

section \<open>White space inside a number\<close>

text \<open>
  Claim C8. White space ends a run of digits although it is skipped: a string of fewer
  than \<open>2 ^ 31\<close> characters with white space between two digits is always rejected, the
  second digit being met in the state \<^verbatim>\<open>STATE_EXPECT_OPERATOR\<close>. The verdict therefore
  changes when white space is deleted: \<^verbatim>\<open>"1 2"\<close> is rejected and \<^verbatim>\<open>"12"\<close>, the same
  string without its white space, is accepted; \<^verbatim>\<open>"12 + 3"\<close> is accepted.
\<close>

theorem whitespace_splits_digits:
  "(strlen (p @ d1 # ws @ d2 # rest) < 2 ^ 31 \<and> CHR 0x00 \<notin> set p
        \<and> isdigit d1 \<and> isdigit d2 \<and> ws \<noteq> [] \<and> (\<forall>w\<in>set ws. isspace w)
      \<longrightarrow> isValidExpression (p @ d1 # ws @ d2 # rest) = Inr False)
   \<and> isValidExpression ''1 2'' = Inr False
   \<and> isValidExpression ''12'' = Inr True
   \<and> filter (\<lambda>c. \<not> isspace c) ''1 2'' = ''12''
   \<and> isValidExpression ''12 + 3'' = Inr True"
proof -
  have split: "isValidExpression (p @ d1 # ws @ d2 # rest) = Inr False"
    if len: "strlen (p @ d1 # ws @ d2 # rest) < 2 ^ 31"
      and p: "CHR 0x00 \<notin> set p" and d1: "isdigit d1" and d2: "isdigit d2"
      and ne: "ws \<noteq> []" and ws: "\<forall>w\<in>set ws. isspace w"
  proof -
    define r where "r = takeWhile (\<lambda>c. c \<noteq> CHR 0x00) rest"
    have "CHR 0x00 \<notin> set (p @ d1 # ws)"
      using p nul_not_digit [OF d1] ws space_not_nul by auto
    then have "takeWhile (\<lambda>c. c \<noteq> CHR 0x00) ((p @ d1 # ws) @ d2 # rest) = (p @ d1 # ws) @ d2 # r"
      unfolding r_def using nul_not_digit [OF d2] by (rule takeWhile_nul_snoc)
    then have chars: "takeWhile (\<lambda>c. c \<noteq> CHR 0x00) (p @ d1 # ws @ d2 # rest)
                      = (p @ [d1]) @ ws @ d2 # r"
      by simp
    have rej: "scan_chars (ws @ d2 # r) STATE_EXPECT_OPERATOR b = ReturnFalse" for b
    proof -
      have "scan_chars (ws @ d2 # r) STATE_EXPECT_OPERATOR b = scan_chars (d2 # r) STATE_EXPECT_OPERATOR b"
        using ws by (rule scan_chars_spaces)
      also have "\<dots> = ReturnFalse"
        using digit_not_space [OF d2] step_operator_operand [of d2 b] d2 by simp
      finally show ?thesis .
    qed
    have "scan_chars ((p @ [d1]) @ ws @ d2 # r) STATE_EXPECT_OPERAND 0 = ReturnFalse"
    proof (cases "scan_chars (p @ [d1]) STATE_EXPECT_OPERAND 0")
      case ReturnFalse
      then show ?thesis by (rule scan_chars_reject_append)
    next
      case (LoopDone st' bal')
      have st': "st' = STATE_EXPECT_OPERATOR"
        using scan_chars_last_digit [OF d1 LoopDone] .
      have "\<not> isdigit (hd (ws @ d2 # r))"
        using ne ws digit_not_space [of "hd ws"] by (cases ws) auto
      then have "scan_chars ((p @ [d1]) @ ws @ d2 # r) STATE_EXPECT_OPERAND 0
                 = scan_chars (ws @ d2 # r) st' bal'"
        using scan_chars_append [OF LoopDone, of "ws @ d2 # r"] by blast
      with rej st' show ?thesis by simp
    qed
    then have "scan_chars (takeWhile (\<lambda>c. c \<noteq> CHR 0x00) (p @ d1 # ws @ d2 # rest))
                 STATE_EXPECT_OPERAND 0 = ReturnFalse"
      by (simp only: chars)
    with len show ?thesis by (rule isValidExpression_reject)
  qed
  have ex1: "isValidExpression ''1 2'' = Inr False" by code_simp
  have ex2: "isValidExpression ''12'' = Inr True" by code_simp
  have ex3: "filter (\<lambda>c. \<not> isspace c) ''1 2'' = ''12''" by (simp add: isspace_def)
  have ex4: "isValidExpression ''12 + 3'' = Inr True" by code_simp
  from split ex1 ex2 ex3 ex4 show ?thesis by blast
qed

theorem whitespace_splits_digits_witness:
  "strlen (''(4'' @ CHR ''1'' # [CHR '' '', CHR 0x09] @ CHR ''2'' # '')*a'') < 2 ^ 31
   \<and> isValidExpression (''(4'' @ CHR ''1'' # [CHR '' '', CHR 0x09] @ CHR ''2'' # '')*a'') = Inr False
   \<and> isValidExpression ''(412)*a'' = Inr True"
proof -
  have l: "strlen (''(4'' @ CHR ''1'' # [CHR '' '', CHR 0x09] @ CHR ''2'' # '')*a'') < 2 ^ 31"
    by (simp add: strlen_def)
  have a: "isValidExpression (''(4'' @ CHR ''1'' # [CHR '' '', CHR 0x09] @ CHR ''2'' # '')*a'')
           = Inr False"
    using whitespace_splits_digits
      [of "''(4''" "CHR ''1''" "[CHR '' '', CHR 0x09]" "CHR ''2''" "'')*a''"] l
    by (simp add: isdigit_def isspace_def)
  have b: "isValidExpression ''(412)*a'' = Inr True" by code_simp
  from l a b show ?thesis by blast
qed

section \<open>Empty parentheses\<close>




section \<open>A bare operand\<close>




end
